theory Spec2Isabelle
  imports Main "HOL-Library.Word" "HOL-Library.Multiset"
begin

section \<open>The ESC/P command parser of tools/escp\_parser.py\<close>

text \<open>
  The development embeds \<^verbatim>\<open>ESCPParser.parse_packet\<close> and the part of
  \<^verbatim>\<open>ESCPParser.parse_file\<close> that feeds packets to it. Python \<^verbatim>\<open>bytes\<close> are lists
  of 8-bit words, Python integers read from a buffer are natural numbers, the module-level
  dictionary \<^verbatim>\<open>ESCP_COMMANDS\<close> is a map from byte strings to descriptions, and the
  object state (\<^verbatim>\<open>self\<close>) is a record passed through every call. The functions
  that read the global dictionary take it as their argument \<open>tbl\<close>; the source runs them
  with \<open>tbl = ESCP_COMMANDS\<close>. An operation of the source that can raise (indexing a
  buffer, subscripting the dictionary) returns a sum whose left injection is the exception.
\<close>

subsection \<open>Data\<close>

datatype error = IndexError | KeyError

type_synonym byte = "8 word"
type_synonym bytes = "byte list"
type_synonym table = "bytes \<rightharpoonup> string"

text \<open>The dictionary literal of lines 20-42, in the order of the source.\<close>

definition ESCP_COMMANDS :: table where
  "ESCP_COMMANDS = map_of
     [([0x1b, 0x40], ''Initialize printer''),
      ([0x1b, 0x28, 0x47], ''Select graphics mode''),
      ([0x1b, 0x28, 0x55], ''Set unit''),
      ([0x1b, 0x28, 0x4b], ''Set color selection''),
      ([0x1b, 0x28, 0x69], ''Set ink density/type''),
      ([0x1b, 0x28, 0x63], ''Set page format''),
      ([0x1b, 0x28, 0x43], ''Set page length''),
      ([0x1b, 0x28, 0x56], ''Set absolute vertical position''),
      ([0x1b, 0x28, 0x76], ''Set relative vertical position''),
      ([0x1b, 0x28, 0x48], ''Set horizontal spacing''),
      ([0x1b, 0x24], ''Set absolute horizontal position''),
      ([0x1b, 0x5c], ''Set relative horizontal position''),
      ([0x1b, 0x28, 0x52], ''Select print color''),
      ([0x1b, 0x28, 0x72], ''Select color tables''),
      ([0x1b, 0x2e], ''Graphics dot control''),
      ([0x1b, 0x2a], ''Select bit image mode''),
      ([0x1b, 0x4b], ''Select single-density graphics''),
      ([0x1b, 0x4c], ''Select double-density graphics''),
      ([0x1b, 0x59], ''Select high-speed double-density graphics''),
      ([0x1b, 0x5a], ''Select quadruple-density graphics'')]"

definition ESC :: bytes where
  "ESC = [0x1b]"

text \<open>One entry of \<^verbatim>\<open>parsed_commands\<close>: the dictionary \<^verbatim>\<open>cmd_info\<close>.\<close>

record cmd_info =
  position :: nat
  command :: string
  description :: string
  parameters :: string

text \<open>
  One entry of \<^verbatim>\<open>parsed_data\<close>: timestamp, direction and the parsed commands of a
  packet.
\<close>

type_synonym parsed_entry = "string \<times> string \<times> cmd_info list"

text \<open>
  The fields set by \<^verbatim>\<open>__init__\<close>. \<^verbatim>\<open>commands_found\<close> is a
  \<^verbatim>\<open>defaultdict(int)\<close>: a key that is absent reads as 0. The insertion order of
  the dictionary is not part of the model.
\<close>

record parser =
  commands_found :: "bytes \<rightharpoonup> int"
  parsed_data :: "parsed_entry list"
  unknown_commands :: "bytes set"

definition init :: parser where
  "init = \<lparr>commands_found = Map.empty, parsed_data = [], unknown_commands = {}\<rparr>"

subsection \<open>Python primitives\<close>

text \<open>\<^verbatim>\<open>data[i:j]\<close> for \<open>0 \<le> i\<close>: clipped at the end of the buffer, never raising.\<close>

definition bytes_slice :: "bytes \<Rightarrow> nat \<Rightarrow> nat \<Rightarrow> bytes" where
  "bytes_slice data i j = take (j - i) (drop i data)"

text \<open>\<^verbatim>\<open>data[k]\<close> for \<open>0 \<le> k\<close>: an integer in 0..255, or IndexError.\<close>

definition getitem :: "bytes \<Rightarrow> nat \<Rightarrow> error + nat" where
  "getitem data k = (if k < length data then Inr (unat (data ! k)) else Inl IndexError)"

text \<open>\<^verbatim>\<open>ESCP_COMMANDS[cmd]\<close>: the description, or KeyError.\<close>

definition lookup :: "table \<Rightarrow> bytes \<Rightarrow> error + string" where
  "lookup tbl cmd = (case tbl cmd of None \<Rightarrow> Inl KeyError | Some d \<Rightarrow> Inr d)"

text \<open>\<^verbatim>\<open>bytes.hex()\<close>: two lower-case hexadecimal digits for each byte.\<close>

definition hex_digit :: "nat \<Rightarrow> char" where
  "hex_digit n = ''0123456789abcdef'' ! n"

definition hex :: "bytes \<Rightarrow> string" where
  "hex bs = concat (map (\<lambda>b. [hex_digit (unat b div 16), hex_digit (unat b mod 16)]) bs)"

text \<open>\<^verbatim>\<open>self.commands_found[cmd] += 1\<close> on the defaultdict.\<close>

definition increment :: "(bytes \<rightharpoonup> int) \<Rightarrow> bytes \<Rightarrow> (bytes \<rightharpoonup> int)" where
  "increment m cmd = m(cmd \<mapsto> (case m cmd of None \<Rightarrow> 0 | Some c \<Rightarrow> c) + 1)"

subsection \<open>One iteration of the loop of parse\_packet\<close>

text \<open>
  Lines 144-147: the parameter length of a matched command of \<open>cmd_len\<close> bytes at
  cursor \<open>i\<close>. The left operand of the sum is read first, then the conditional.
\<close>

definition param_length :: "bytes \<Rightarrow> nat \<Rightarrow> nat \<Rightarrow> error + nat" where
  "param_length data i cmd_len =
     (if cmd_len \<ge> 3 then
        (if i + cmd_len + 1 < length data then
           (case getitem data (i + cmd_len) of
              Inl e \<Rightarrow> Inl e
            | Inr lo \<Rightarrow>
                (if i + cmd_len + 2 < length data then
                   (case getitem data (i + cmd_len + 1) of
                      Inl e \<Rightarrow> Inl e
                    | Inr hi \<Rightarrow> Inr (lo + hi * 256))
                 else Inr (lo + 0)))
         else Inr 0)
      else Inr 0)"

text \<open>
  What an iteration does, and the cursor after it: a command was matched (its
  \<^verbatim>\<open>cmd_info\<close>, the key \<^verbatim>\<open>cmd\<close> that is counted and the bytes
  \<^verbatim>\<open>params\<close>), an unknown sequence was recorded, or a byte that is not ESC was
  passed over.
\<close>

datatype step = Matched cmd_info bytes bytes | Unknown bytes | Skipped

text \<open>
  Lines 143-164: the body of \<^verbatim>\<open>if cmd in ESCP_COMMANDS\<close> inside the
  \<^verbatim>\<open>for\<close> loop.
\<close>

definition matched_command :: "table \<Rightarrow> bytes \<Rightarrow> nat \<Rightarrow> nat \<Rightarrow> error + (step \<times> nat)" where
  "matched_command tbl data i cmd_len =
     (let cmd = bytes_slice data i (i + cmd_len) in
      case param_length data i cmd_len of
        Inl e \<Rightarrow> Inl e
      | Inr param_len \<Rightarrow>
          (let params =
                 (if param_len > 0 \<and> i + cmd_len + 2 + param_len \<le> length data
                  then bytes_slice data (i + cmd_len + 2) (i + cmd_len + 2 + param_len)
                  else [])
           in case lookup tbl cmd of
                Inl e \<Rightarrow> Inl e
              | Inr d \<Rightarrow>
                  Inr (Matched
                         \<lparr>position = i, command = hex cmd, description = d,
                          parameters = (if params \<noteq> [] then hex params else '''')\<rparr>
                         cmd params,
                       i + cmd_len + (if param_len > 0 then param_len + 2 else 0))))"

text \<open>
  Lines 139-165: \<^verbatim>\<open>for cmd_len in range(5, 1, -1)\<close>, leaving at the first hit.
  \<open>None\<close> is \<^verbatim>\<open>matched == False\<close> after the loop.
\<close>

fun for_cmd_len :: "table \<Rightarrow> bytes \<Rightarrow> nat \<Rightarrow> nat list \<Rightarrow> error + (step \<times> nat) option" where
  "for_cmd_len tbl data i [] = Inr None"
| "for_cmd_len tbl data i (cmd_len # rest) =
     (if i + cmd_len \<le> length data \<and> tbl (bytes_slice data i (i + cmd_len)) \<noteq> None
      then (case matched_command tbl data i cmd_len of
              Inl e \<Rightarrow> Inl e
            | Inr r \<Rightarrow> Inr (Some r))
      else for_cmd_len tbl data i rest)"

text \<open>
  Lines 136-191: the body of the \<^verbatim>\<open>while\<close> loop at cursor \<open>i\<close>.
\<close>

definition loop_body :: "table \<Rightarrow> bytes \<Rightarrow> nat \<Rightarrow> error + (step \<times> nat)" where
  "loop_body tbl data i =
     (if bytes_slice data i (i + 1) = ESC then
        (case for_cmd_len tbl data i [5, 4, 3, 2] of
           Inl e \<Rightarrow> Inl e
         | Inr (Some r) \<Rightarrow> Inr r
         | Inr None \<Rightarrow>
             (if i + 2 \<le> length data \<and> tbl (bytes_slice data i (i + 2)) \<noteq> None then
                (case lookup tbl (bytes_slice data i (i + 2)) of
                   Inl e \<Rightarrow> Inl e
                 | Inr d \<Rightarrow>
                     Inr (Matched
                            \<lparr>position = i, command = hex (bytes_slice data i (i + 2)),
                             description = d, parameters = ''''\<rparr>
                            (bytes_slice data i (i + 2)) [],
                          i + 2))
              else Inr (Unknown (bytes_slice data i (i + 2)), i + 1)))
      else Inr (Skipped, i + 1))"

text \<open>The effect of an iteration on \<^verbatim>\<open>parsed_commands\<close> and on \<^verbatim>\<open>self\<close>.\<close>

fun append_step :: "step \<Rightarrow> cmd_info list \<Rightarrow> cmd_info list" where
  "append_step (Matched info cmd params) parsed_commands = parsed_commands @ [info]"
| "append_step (Unknown unknown_cmd) parsed_commands = parsed_commands"
| "append_step Skipped parsed_commands = parsed_commands"

fun update_self :: "step \<Rightarrow> parser \<Rightarrow> parser" where
  "update_self (Matched info cmd params) self =
     self\<lparr>commands_found := increment (commands_found self) cmd\<rparr>"
| "update_self (Unknown unknown_cmd) self =
     self\<lparr>unknown_commands := insert unknown_cmd (unknown_commands self)\<rparr>"
| "update_self Skipped self = self"

subsection \<open>The loop\<close>

lemma getitem_in_range: "k < length data \<Longrightarrow> getitem data k = Inr (unat (data ! k))"
  by (simp add: getitem_def)

lemma matched_command_advances:
  "matched_command tbl data i cmd_len = Inr (st, j) \<Longrightarrow> i + cmd_len \<le> j"
  by (auto simp: matched_command_def Let_def split: sum.splits if_splits)

lemma for_cmd_len_advances:
  "for_cmd_len tbl data i ns = Inr (Some (st, j)) \<Longrightarrow> \<forall>n\<in>set ns. 2 \<le> n \<Longrightarrow> i + 2 \<le> j"
proof (induction ns)
  case Nil
  then show ?case by simp
next
  case (Cons n ns)
  then show ?case
    by (auto split: if_splits sum.splits dest!: matched_command_advances)
qed

lemma loop_body_advances:
  assumes "loop_body tbl data i = Inr (st, j)"
  shows "i < j"
proof (cases "for_cmd_len tbl data i [5, 4, 3, 2]")
  case (Inl e)
  with assms show ?thesis
    by (simp add: loop_body_def split: if_splits)
next
  case (Inr r)
  show ?thesis
  proof (cases r)
    case None
    with Inr assms show ?thesis
      by (auto simp: loop_body_def split: if_splits sum.splits)
  next
    case (Some p)
    obtain st' j' where p: "p = (st', j')" by (cases p)
    from Inr Some p have "i + 2 \<le> j'"
      by (intro for_cmd_len_advances [of tbl data i "[5, 4, 3, 2]" st' j']) simp_all
    with Inr Some p assms show ?thesis
      by (simp add: loop_body_def split: if_splits)
  qed
qed

text \<open>
  Lines 131-193: \<^verbatim>\<open>while i < len(data)\<close>. The cursor grows in every iteration,
  so the distance to the end of the buffer is a measure.
\<close>

function parse_loop ::
  "table \<Rightarrow> bytes \<Rightarrow> nat \<Rightarrow> cmd_info list \<Rightarrow> parser \<Rightarrow> error + (cmd_info list \<times> parser)" where
  "parse_loop tbl data i parsed_commands self =
     (if i < length data then
        (case loop_body tbl data i of
           Inl e \<Rightarrow> Inl e
         | Inr (st, j) \<Rightarrow>
             parse_loop tbl data j (append_step st parsed_commands) (update_self st self))
      else Inr (parsed_commands, self))"
  by pat_completeness auto
termination
  by (relation "measure (\<lambda>(tbl, data, i, parsed_commands, self). length data - i)")
     (auto dest: loop_body_advances)

declare parse_loop.simps [simp del]

definition parse_packet :: "table \<Rightarrow> bytes \<Rightarrow> parser \<Rightarrow> error + (cmd_info list \<times> parser)" where
  "parse_packet tbl data self = parse_loop tbl data 0 [] self"


subsection \<open>Observing the loop\<close>

text \<open>
  The iterations the loop makes from cursor \<open>i\<close>: for each one the cursor before it,
  what it did and the cursor after it. The function follows the control flow of
  \<open>parse_loop\<close> and is used to state properties of the run.
\<close>

function iterations :: "table \<Rightarrow> bytes \<Rightarrow> nat \<Rightarrow> (nat \<times> step \<times> nat) list" where
  "iterations tbl data i =
     (if i < length data then
        (case loop_body tbl data i of
           Inl e \<Rightarrow> []
         | Inr (st, j) \<Rightarrow> (i, st, j) # iterations tbl data j)
      else [])"
  by pat_completeness auto
termination
  by (relation "measure (\<lambda>(tbl, data, i). length data - i)")
     (auto dest: loop_body_advances)

declare iterations.simps [simp del]

subsection \<open>Spans of an iteration\<close>

text \<open>
  The spans that tile the buffer according to the specification: for a matched command its
  prefix and, when it has parameters, its parameter region (the two length bytes and the
  parameter bytes); for an unknown sequence or a byte that is passed over, the single byte
  at the cursor.
\<close>

fun claimed_span :: "bytes \<Rightarrow> nat \<times> step \<times> nat \<Rightarrow> bytes" where
  "claimed_span data (i, Matched info cmd params, j) =
     (if params \<noteq> [] then
        cmd @ bytes_slice data (i + length cmd) (i + length cmd + 2) @ params
      else cmd)"
| "claimed_span data (i, Unknown unknown_cmd, j) = bytes_slice data i (i + 1)"
| "claimed_span data (i, Skipped, j) = bytes_slice data i (i + 1)"

text \<open>
  The bytes that the cursor passes in an iteration: the single byte at the cursor; or the
  prefix, the two length bytes and the parameters of a command that has parameters; or the
  prefix alone when the cursor stops behind it; or the prefix and the rest of the buffer.
\<close>

fun step_span :: "bytes \<Rightarrow> nat \<times> step \<times> nat \<Rightarrow> bytes" where
  "step_span data (i, Matched info cmd params, j) =
     (if params \<noteq> [] then
        cmd @ bytes_slice data (i + length cmd) (i + length cmd + 2) @ params
      else if j = i + length cmd then cmd
      else cmd @ bytes_slice data (i + length cmd) (length data))"
| "step_span data (i, Unknown unknown_cmd, j) = bytes_slice data i (i + 1)"
| "step_span data (i, Skipped, j) = bytes_slice data i (i + 1)"

text \<open>Each iteration starts at the cursor that the previous one left.\<close>

fun chained :: "nat \<Rightarrow> (nat \<times> step \<times> nat) list \<Rightarrow> bool" where
  "chained i [] = True"
| "chained i ((k, st, j) # its) = (k = i \<and> i < j \<and> chained j its)"

subsection \<open>What a run adds to the statistics\<close>

text \<open>
  The key that an iteration counts in \<^verbatim>\<open>commands_found\<close> and the sequence that it adds
  to \<^verbatim>\<open>unknown_commands\<close>, if any.
\<close>

fun counted_keys :: "step \<Rightarrow> bytes list" where
  "counted_keys (Matched info cmd params) = [cmd]"
| "counted_keys (Unknown unknown_cmd) = []"
| "counted_keys Skipped = []"

fun recorded_unknowns :: "step \<Rightarrow> bytes list" where
  "recorded_unknowns (Matched info cmd params) = []"
| "recorded_unknowns (Unknown unknown_cmd) = [unknown_cmd]"
| "recorded_unknowns Skipped = []"

text \<open>The steps of the run of \<^verbatim>\<open>parse_packet\<close> on a buffer.\<close>

definition steps :: "table \<Rightarrow> bytes \<Rightarrow> step list" where
  "steps tbl data = map (fst \<circ> snd) (iterations tbl data 0)"

subsection \<open>Feeding packets\<close>

text \<open>
  Lines 64-88 of \<^verbatim>\<open>parse_file\<close>: the loop over the packets of a capture, each
  already decoded to its timestamp, its direction and its bytes (reading the file and decoding
  hexadecimal text are outside the model). An exception ends the loop and is returned as a value;
  the handler of line 92 is not modelled.
\<close>

fun parse_file :: "table \<Rightarrow> (string \<times> string \<times> bytes) list \<Rightarrow> parser \<Rightarrow> error + parser" where
  "parse_file tbl [] self = Inr self"
| "parse_file tbl ((timestamp, direction, packet_data) # packets) self =
     (case parse_packet tbl packet_data self of
        Inl e \<Rightarrow> Inl e
      | Inr (parsed, self') \<Rightarrow>
          parse_file tbl packets
            (if parsed \<noteq> []
             then self'\<lparr>parsed_data := parsed_data self' @ [(timestamp, direction, parsed)]\<rparr>
             else self'))"


section \<open>Properties of the loop\<close>

lemma param_length_total: "\<exists>n. param_length data i cmd_len = Inr n"
  by (simp add: param_length_def getitem_def)

lemma param_length_value:
  "param_length data i cmd_len =
     Inr (if 3 \<le> cmd_len \<and> i + cmd_len + 1 < length data
          then unat (data ! (i + cmd_len)) +
               (if i + cmd_len + 2 < length data then unat (data ! (i + cmd_len + 1)) * 256 else 0)
          else 0)"
  by (simp add: param_length_def getitem_def)

lemma matched_command_total:
  "tbl (bytes_slice data i (i + cmd_len)) \<noteq> None \<Longrightarrow>
   \<exists>info params j. matched_command tbl data i cmd_len =
      Inr (Matched info (bytes_slice data i (i + cmd_len)) params, j)"
  using param_length_total [of data i cmd_len]
  by (auto simp: matched_command_def lookup_def Let_def)

lemma for_cmd_len_total: "\<exists>r. for_cmd_len tbl data i ns = Inr r"
proof (induction ns)
  case Nil
  show ?case by simp
next
  case (Cons n ns)
  show ?case
  proof (cases "i + n \<le> length data \<and> tbl (bytes_slice data i (i + n)) \<noteq> None")
    case True
    then obtain info params j where
      "matched_command tbl data i n = Inr (Matched info (bytes_slice data i (i + n)) params, j)"
      using matched_command_total [of tbl data i n] by blast
    with True show ?thesis by simp
  next
    case False
    with Cons.IH show ?thesis by auto
  qed
qed

lemma loop_body_total: "\<exists>st j. loop_body tbl data i = Inr (st, j)"
proof -
  obtain r where r: "for_cmd_len tbl data i [5, 4, 3, 2] = Inr r"
    using for_cmd_len_total by blast
  show ?thesis
  proof (cases r)
    case None
    with r show ?thesis
      by (auto simp: loop_body_def lookup_def)
  next
    case (Some p)
    with r show ?thesis
      by (cases p) (simp add: loop_body_def)
  qed
qed

lemma iterations_step:
  "i < length data \<Longrightarrow> loop_body tbl data i = Inr (st, j) \<Longrightarrow>
   iterations tbl data i = (i, st, j) # iterations tbl data j"
  by (subst iterations.simps) simp

lemma iterations_end: "length data \<le> i \<Longrightarrow> iterations tbl data i = []"
  by (subst iterations.simps) simp

lemma parse_loop_iterations:
  "parse_loop tbl data i parsed_commands self =
     Inr (fold append_step (map (fst \<circ> snd) (iterations tbl data i)) parsed_commands,
          fold update_self (map (fst \<circ> snd) (iterations tbl data i)) self)"
proof (induction tbl data i parsed_commands self rule: parse_loop.induct)
  case (1 tbl data i parsed_commands self)
  show ?case
  proof (cases "i < length data")
    case False
    then show ?thesis
      by (simp add: parse_loop.simps iterations_end)
  next
    case True
    obtain st j where b: "loop_body tbl data i = Inr (st, j)"
      using loop_body_total by blast
    from True b "1.IH" [OF True b refl] show ?thesis
      by (simp add: parse_loop.simps [of tbl data i] iterations_step)
  qed
qed

lemma iterations_length: "length (iterations tbl data i) \<le> length data - i"
proof (induction tbl data i rule: iterations.induct)
  case (1 tbl data i)
  show ?case
  proof (cases "i < length data")
    case False
    then show ?thesis by (simp add: iterations_end)
  next
    case True
    obtain st j where b: "loop_body tbl data i = Inr (st, j)"
      using loop_body_total by blast
    have "i < j" using b by (rule loop_body_advances)
    with True b "1.IH" [OF True b refl] show ?thesis
      by (simp add: iterations_step)
  qed
qed

lemma iterations_entries:
  "(k, st, j) \<in> set (iterations tbl data i) \<Longrightarrow>
   i \<le> k \<and> k < length data \<and> loop_body tbl data k = Inr (st, j)"
proof (induction tbl data i rule: iterations.induct)
  case (1 tbl data i)
  show ?case
  proof (cases "i < length data")
    case False
    with "1.prems" show ?thesis by (simp add: iterations_end)
  next
    case True
    obtain st' j' where b: "loop_body tbl data i = Inr (st', j')"
      using loop_body_total by blast
    have lt: "i < j'" using b by (rule loop_body_advances)
    from "1.prems" True b have
      "(k, st, j) = (i, st', j') \<or> (k, st, j) \<in> set (iterations tbl data j')"
      by (simp add: iterations_step)
    then show ?thesis
    proof
      assume "(k, st, j) = (i, st', j')"
      with True b show ?thesis by simp
    next
      assume "(k, st, j) \<in> set (iterations tbl data j')"
      from "1.IH" [OF True b refl this] lt show ?thesis by simp
    qed
  qed
qed

lemma for_cmd_len_Some:
  "for_cmd_len tbl data i ns = Inr (Some r) \<Longrightarrow>
   \<exists>pre n post. ns = pre @ n # post \<and>
     (\<forall>m\<in>set pre. \<not> (i + m \<le> length data \<and> tbl (bytes_slice data i (i + m)) \<noteq> None)) \<and>
     i + n \<le> length data \<and> tbl (bytes_slice data i (i + n)) \<noteq> None \<and>
     matched_command tbl data i n = Inr r"
proof (induction ns)
  case Nil
  then show ?case by simp
next
  case (Cons a ns)
  show ?case
  proof (cases "i + a \<le> length data \<and> tbl (bytes_slice data i (i + a)) \<noteq> None")
    case True
    with Cons.prems have "matched_command tbl data i a = Inr r"
      by (simp split: sum.splits)
    with True have "a # ns = [] @ a # ns \<and>
     (\<forall>m\<in>set []. \<not> (i + m \<le> length data \<and> tbl (bytes_slice data i (i + m)) \<noteq> None)) \<and>
     i + a \<le> length data \<and> tbl (bytes_slice data i (i + a)) \<noteq> None \<and>
     matched_command tbl data i a = Inr r" by simp
    then show ?thesis by blast
  next
    case False
    with Cons.prems have "for_cmd_len tbl data i ns = Inr (Some r)" by auto
    from Cons.IH [OF this] obtain pre n post where h: "ns = pre @ n # post"
      "\<forall>m\<in>set pre. \<not> (i + m \<le> length data \<and> tbl (bytes_slice data i (i + m)) \<noteq> None)"
      "i + n \<le> length data" "tbl (bytes_slice data i (i + n)) \<noteq> None"
      "matched_command tbl data i n = Inr r" by blast
    with False have "a # ns = (a # pre) @ n # post \<and>
     (\<forall>m\<in>set (a # pre). \<not> (i + m \<le> length data \<and> tbl (bytes_slice data i (i + m)) \<noteq> None)) \<and>
     i + n \<le> length data \<and> tbl (bytes_slice data i (i + n)) \<noteq> None \<and>
     matched_command tbl data i n = Inr r" by simp
    then show ?thesis by blast
  qed
qed

lemma for_cmd_len_None:
  "for_cmd_len tbl data i ns = Inr None \<longleftrightarrow>
   (\<forall>m\<in>set ns. \<not> (i + m \<le> length data \<and> tbl (bytes_slice data i (i + m)) \<noteq> None))"
proof (induction ns)
  case Nil
  show ?case by simp
next
  case (Cons a ns)
  show ?case
  proof (cases "i + a \<le> length data \<and> tbl (bytes_slice data i (i + a)) \<noteq> None")
    case True
    then obtain info params j where
      "matched_command tbl data i a = Inr (Matched info (bytes_slice data i (i + a)) params, j)"
      using matched_command_total [of tbl data i a] by blast
    with True show ?thesis by simp
  next
    case False
    with Cons.IH show ?thesis by auto
  qed
qed

lemma for_cmd_len_first_hit:
  assumes "\<forall>m\<in>set pre. \<not> (i + m \<le> length data \<and> tbl (bytes_slice data i (i + m)) \<noteq> None)"
    and "i + n \<le> length data" and "tbl (bytes_slice data i (i + n)) \<noteq> None"
    and "matched_command tbl data i n = Inr r"
  shows "for_cmd_len tbl data i (pre @ n # post) = Inr (Some r)"
  using assms by (induction pre) auto

lemma matched_command_eq:
  assumes "param_length data i n = Inr pl" and "tbl (bytes_slice data i (i + n)) = Some d"
  shows "matched_command tbl data i n =
     Inr (Matched
            \<lparr>position = i, command = hex (bytes_slice data i (i + n)), description = d,
             parameters =
               (if pl > 0 \<and> i + n + 2 + pl \<le> length data
                then hex (bytes_slice data (i + n + 2) (i + n + 2 + pl)) else '''')\<rparr>
            (bytes_slice data i (i + n))
            (if pl > 0 \<and> i + n + 2 + pl \<le> length data
             then bytes_slice data (i + n + 2) (i + n + 2 + pl) else []),
          i + n + (if pl > 0 then pl + 2 else 0))"
  using assms by (auto simp: matched_command_def lookup_def Let_def bytes_slice_def hex_def)

text \<open>What a matching iteration reports.\<close>

lemma loop_body_Matched:
  assumes "loop_body tbl data i = Inr (Matched info cmd params, j)"
  shows "\<exists>n d. 2 \<le> n \<and> n \<le> 5 \<and> i + n \<le> length data \<and> cmd = bytes_slice data i (i + n) \<and>
           tbl cmd = Some d \<and> info = \<lparr>position = i, command = hex cmd, description = d,
             parameters = (if params \<noteq> [] then hex params else '''')\<rparr> \<and>
           (\<forall>m. n < m \<and> m \<le> 5 \<and> i + m \<le> length data \<longrightarrow> tbl (bytes_slice data i (i + m)) = None) \<and>
           matched_command tbl data i n = Inr (Matched info cmd params, j)"
proof -
  from assms have esc: "bytes_slice data i (i + 1) = ESC"
    by (auto simp: loop_body_def split: if_splits)
  obtain r where r: "for_cmd_len tbl data i [5, 4, 3, 2] = Inr r"
    using for_cmd_len_total by blast
  have "r \<noteq> None"
  proof
    assume "r = None"
    with r have none: "for_cmd_len tbl data i [5, 4, 3, 2] = Inr None" by simp
    then have "\<not> (i + 2 \<le> length data \<and> tbl (bytes_slice data i (i + 2)) \<noteq> None)"
      unfolding for_cmd_len_None by simp
    with none esc assms show False
      by (auto simp: loop_body_def)
  qed
  with r assms esc have f: "for_cmd_len tbl data i [5, 4, 3, 2] = Inr (Some (Matched info cmd params, j))"
    by (auto simp: loop_body_def)
  from for_cmd_len_Some [OF f] obtain pre n post where h: "[5, 4, 3, 2] = pre @ n # post"
      "\<forall>m\<in>set pre. \<not> (i + m \<le> length data \<and> tbl (bytes_slice data i (i + m)) \<noteq> None)"
      "i + n \<le> length data" "tbl (bytes_slice data i (i + n)) \<noteq> None"
      "matched_command tbl data i n = Inr (Matched info cmd params, j)" by blast
  from h(4) obtain d where d: "tbl (bytes_slice data i (i + n)) = Some d" by blast
  obtain pl where pl: "param_length data i n = Inr pl"
    using param_length_total by blast
  from h(1) have cases: "(pre = [] \<and> n = 5) \<or> (pre = [5] \<and> n = 4) \<or> (pre = [5, 4] \<and> n = 3) \<or> (pre = [5, 4, 3] \<and> n = 2)"
    by (auto simp: Cons_eq_append_conv)
  then have n: "2 \<le> n" "n \<le> 5" by auto
  from cases have pre: "\<forall>m. n < m \<and> m \<le> 5 \<longrightarrow> m \<in> set pre"
    by auto
  from h(5) matched_command_eq [where tbl = tbl, OF pl d] have
    "cmd = bytes_slice data i (i + n)"
    "info = \<lparr>position = i, command = hex cmd, description = d,
             parameters = (if params \<noteq> [] then hex params else '''')\<rparr>"
    by (auto simp: hex_def)
  with n h d pre show ?thesis by (intro exI [of _ n] exI [of _ d]) auto
qed

text \<open>The longest slice that is in the table decides the iteration.\<close>

lemma loop_body_longest:
  assumes esc: "bytes_slice data i (i + 1) = ESC"
    and n: "2 \<le> n" "n \<le> 5" "i + n \<le> length data"
    and hit: "tbl (bytes_slice data i (i + n)) = Some d"
    and longer: "\<forall>m. n < m \<and> m \<le> 5 \<and> i + m \<le> length data \<longrightarrow>
                   tbl (bytes_slice data i (i + m)) = None"
  shows "loop_body tbl data i = matched_command tbl data i n"
proof -
  obtain info params j where
    mc: "matched_command tbl data i n = Inr (Matched info (bytes_slice data i (i + n)) params, j)"
    using matched_command_total [of tbl data i n] hit by auto
  from n have "n = 5 \<or> n = 4 \<or> n = 3 \<or> n = 2" by arith
  then obtain pre post where split: "[5, 4, 3, 2] = pre @ n # post"
    and pre: "\<forall>m\<in>set pre. n < m \<and> m \<le> 5"
  proof (elim disjE)
    assume "n = 5"
    then have "[5, 4, 3, 2] = [] @ n # [4, 3, 2]" "\<forall>m\<in>set []. n < m \<and> m \<le> 5" by simp_all
    then show ?thesis by (rule that)
  next
    assume "n = 4"
    then have "[5, 4, 3, 2] = [5] @ n # [3, 2]" "\<forall>m\<in>set [5]. n < m \<and> m \<le> 5" by simp_all
    then show ?thesis by (rule that)
  next
    assume "n = 3"
    then have "[5, 4, 3, 2] = [5, 4] @ n # [2]" "\<forall>m\<in>set [5, 4]. n < m \<and> m \<le> 5" by simp_all
    then show ?thesis by (rule that)
  next
    assume "n = 2"
    then have "[5, 4, 3, 2] = [5, 4, 3] @ n # []" "\<forall>m\<in>set [5, 4, 3]. n < m \<and> m \<le> 5"
      by simp_all
    then show ?thesis by (rule that)
  qed
  from pre longer have
    "\<forall>m\<in>set pre. \<not> (i + m \<le> length data \<and> tbl (bytes_slice data i (i + m)) \<noteq> None)"
    by auto
  from for_cmd_len_first_hit [OF this n(3) _ mc, of post] hit split
  have "for_cmd_len tbl data i [5, 4, 3, 2] =
          Inr (Some (Matched info (bytes_slice data i (i + n)) params, j))"
    by simp
  with esc mc show ?thesis
    by (simp add: loop_body_def)
qed

lemma fold_append_step:
  "fold append_step sts parsed_commands =
     parsed_commands @ concat (map (\<lambda>st. append_step st []) sts)"
proof (induction sts arbitrary: parsed_commands)
  case Nil
  show ?case by simp
next
  case (Cons st sts)
  show ?case
    by (cases st) (simp_all add: Cons.IH)
qed

text \<open>The commands reported by the iterations from cursor \<open>i\<close> on.\<close>

lemma iterations_commands_position:
  assumes "c \<in> set (concat (map (\<lambda>st. append_step st []) (map (fst \<circ> snd) (iterations tbl data i))))"
  shows "\<exists>cmd params j. (position c, Matched c cmd params, j) \<in> set (iterations tbl data i)"
proof -
  from assms obtain k st j where m: "(k, st, j) \<in> set (iterations tbl data i)"
    and c: "c \<in> set (append_step st [])"
    by auto
  from c obtain cmd params where st: "st = Matched c cmd params"
    by (cases st) auto
  from iterations_entries [OF m] st have "loop_body tbl data k = Inr (Matched c cmd params, j)"
    by simp
  from loop_body_Matched [OF this] have "position c = k" by auto
  with m st show ?thesis by blast
qed

lemma iterations_commands_sorted:
  "sorted_wrt (<) (map position
     (concat (map (\<lambda>st. append_step st []) (map (fst \<circ> snd) (iterations tbl data i)))))"
proof (induction tbl data i rule: iterations.induct)
  case (1 tbl data i)
  show ?case
  proof (cases "i < length data")
    case False
    then show ?thesis by (simp add: iterations_end)
  next
    case True
    obtain st j where b: "loop_body tbl data i = Inr (st, j)"
      using loop_body_total by blast
    have lt: "i < j" using b by (rule loop_body_advances)
    let ?rest = "concat (map (\<lambda>st. append_step st []) (map (fst \<circ> snd) (iterations tbl data j)))"
    have later: "\<forall>c\<in>set ?rest. i < position c"
    proof
      fix c assume "c \<in> set ?rest"
      from iterations_commands_position [OF this] obtain cmd params j' where
        "(position c, Matched c cmd params, j') \<in> set (iterations tbl data j)" by blast
      from iterations_entries [OF this] lt show "i < position c" by simp
    qed
    have IH: "sorted_wrt (<) (map position ?rest)"
      using "1.IH" [OF True b refl] .
    show ?thesis
    proof (cases st)
      case (Matched info cmd params)
      with b loop_body_Matched [of tbl data i info cmd params j] have "position info = i"
        by auto
      with Matched True b IH later show ?thesis
        by (simp add: iterations_step [OF True b] sorted_wrt_append comp_def)
    next
      case (Unknown u)
      with True b IH show ?thesis by (simp add: iterations_step [OF True b] comp_def)
    next
      case Skipped
      with True b IH show ?thesis by (simp add: iterations_step [OF True b] comp_def)
    qed
  qed
qed

text \<open>The keys of \<open>ESCP_COMMANDS\<close>: at most 3 bytes, the first of them the escape byte.\<close>

lemma ESCP_COMMANDS_keys:
  assumes "ESCP_COMMANDS k = Some d"
  shows "length k \<le> 3 \<and> take 1 k = ESC"
proof -
  from assms have "(k, d) \<in> set
     [([0x1b, 0x40], ''Initialize printer''),
      ([0x1b, 0x28, 0x47], ''Select graphics mode''),
      ([0x1b, 0x28, 0x55], ''Set unit''),
      ([0x1b, 0x28, 0x4b], ''Set color selection''),
      ([0x1b, 0x28, 0x69], ''Set ink density/type''),
      ([0x1b, 0x28, 0x63], ''Set page format''),
      ([0x1b, 0x28, 0x43], ''Set page length''),
      ([0x1b, 0x28, 0x56], ''Set absolute vertical position''),
      ([0x1b, 0x28, 0x76], ''Set relative vertical position''),
      ([0x1b, 0x28, 0x48], ''Set horizontal spacing''),
      ([0x1b, 0x24], ''Set absolute horizontal position''),
      ([0x1b, 0x5c], ''Set relative horizontal position''),
      ([0x1b, 0x28, 0x52], ''Select print color''),
      ([0x1b, 0x28, 0x72], ''Select color tables''),
      ([0x1b, 0x2e], ''Graphics dot control''),
      ([0x1b, 0x2a], ''Select bit image mode''),
      ([0x1b, 0x4b], ''Select single-density graphics''),
      ([0x1b, 0x4c], ''Select double-density graphics''),
      ([0x1b, 0x59], ''Select high-speed double-density graphics''),
      ([0x1b, 0x5a], ''Select quadruple-density graphics'')]"
    unfolding ESCP_COMMANDS_def by (rule map_of_SomeD)
  then show ?thesis
    by (auto simp: ESC_def)
qed

lemma sorted_positions_filter:
  "sorted_wrt (<) (map f xs) \<Longrightarrow> x \<in> set xs \<Longrightarrow> filter (\<lambda>c. f c = (f x :: nat)) xs = [x]"
proof (induction xs)
  case Nil
  then show ?case by simp
next
  case (Cons a xs)
  show ?case
  proof (cases "x = a")
    case True
    from Cons.prems(1) have "\<forall>c\<in>set xs. f a < f c" by simp
    then have "filter (\<lambda>c. f c = f a) xs = []"
      by (auto simp: filter_empty_conv)
    with True show ?thesis by simp
  next
    case False
    with Cons.prems have x: "x \<in> set xs" and "f a < f x" by auto
    with Cons.IH Cons.prems(1) show ?thesis by auto
  qed
qed

text \<open>The command that a reached cursor reports is the only one at its position.\<close>

lemma reached_command_unique:
  assumes m: "(i, Matched info cmd params, j) \<in> set (iterations tbl data 0)"
  shows "\<exists>parsed_commands self'.
           parse_packet tbl data self = Inr (parsed_commands, self') \<and>
           filter (\<lambda>c. position c = i) parsed_commands = [info]"
proof -
  let ?cmds = "concat (map (\<lambda>st. append_step st []) (map (fst \<circ> snd) (iterations tbl data 0)))"
  have run: "parse_packet tbl data self =
      Inr (?cmds, fold update_self (map (fst \<circ> snd) (iterations tbl data 0)) self)"
    by (simp add: parse_packet_def parse_loop_iterations fold_append_step)
  from iterations_entries [OF m] have "loop_body tbl data i = Inr (Matched info cmd params, j)"
    by simp
  from loop_body_Matched [OF this] have pos: "position info = i" by auto
  from m have "info \<in> set ?cmds"
    by (force simp: comp_def)
  from sorted_positions_filter [OF iterations_commands_sorted this] pos
  have "filter (\<lambda>c. position c = i) ?cmds = [info]" by simp
  with run show ?thesis by simp
qed

lemma bytes_slice_append:
  "i \<le> k \<Longrightarrow> k \<le> j \<Longrightarrow> bytes_slice data i k @ bytes_slice data k j = bytes_slice data i j"
proof -
  assume a: "i \<le> k" "k \<le> j"
  have "take (k - i) (drop i data) @ take (j - k) (drop (k - i) (drop i data)) =
        take ((k - i) + (j - k)) (drop i data)"
    by (simp add: take_add)
  with a show ?thesis by (simp add: bytes_slice_def)
qed

lemma bytes_slice_clip:
  "length data \<le> j \<Longrightarrow> bytes_slice data i j = bytes_slice data i (length data)"
  by (simp add: bytes_slice_def)

lemma bytes_slice_drop: "i \<le> j \<Longrightarrow> bytes_slice data i j @ drop j data = drop i data"
proof -
  assume "i \<le> j"
  then have "drop j data = drop (j - i) (drop i data)" by simp
  then show ?thesis
    unfolding bytes_slice_def by (simp only: append_take_drop_id)
qed

lemma loop_body_single:
  assumes "loop_body tbl data i = Inr (st, j)" and "st = Skipped \<or> st = Unknown u"
  shows "j = i + 1"
proof (cases "for_cmd_len tbl data i [5, 4, 3, 2]")
  case (Inl e)
  with assms show ?thesis
    by (auto simp: loop_body_def split: if_splits)
next
  case (Inr r)
  show ?thesis
  proof (cases r)
    case None
    with Inr assms show ?thesis
      by (auto simp: loop_body_def split: if_splits sum.splits)
  next
    case (Some p)
    obtain st' j' where p: "p = (st', j')" by (cases p)
    from for_cmd_len_Some [of tbl data i "[5, 4, 3, 2]" p] Inr Some obtain n where
      "tbl (bytes_slice data i (i + n)) \<noteq> None" "matched_command tbl data i n = Inr p"
      by auto
    with matched_command_total [of tbl data i n] p obtain info params
      where "st' = Matched info (bytes_slice data i (i + n)) params" by auto
    with Inr Some p assms show ?thesis
      by (auto simp: loop_body_def split: if_splits)
  qed
qed

lemma iterations_chained: "chained i (iterations tbl data i)"
proof (induction tbl data i rule: iterations.induct)
  case (1 tbl data i)
  show ?case
  proof (cases "i < length data")
    case False
    then show ?thesis by (simp add: iterations_end)
  next
    case True
    obtain st j where b: "loop_body tbl data i = Inr (st, j)"
      using loop_body_total by blast
    from loop_body_advances [OF b] "1.IH" [OF True b refl] show ?thesis
      by (simp add: iterations_step [OF True b])
  qed
qed

lemma iterations_cover:
  "concat (map (\<lambda>(k, st, j). bytes_slice data k j) (iterations tbl data i)) = drop i data"
proof (induction tbl data i rule: iterations.induct)
  case (1 tbl data i)
  show ?case
  proof (cases "i < length data")
    case False
    then show ?thesis by (simp add: iterations_end)
  next
    case True
    obtain st j where b: "loop_body tbl data i = Inr (st, j)"
      using loop_body_total by blast
    from loop_body_advances [OF b] have "i \<le> j" by simp
    from bytes_slice_drop [OF this] "1.IH" [OF True b refl] show ?thesis
      by (simp add: iterations_step [OF True b])
  qed
qed

lemma step_span_slice:
  assumes b: "loop_body tbl data i = Inr (st, j)" and i: "i < length data"
  shows "step_span data (i, st, j) = bytes_slice data i j"
proof (cases st)
  case Skipped
  with loop_body_single [OF b] show ?thesis by simp
next
  case (Unknown u)
  with loop_body_single [OF b] show ?thesis by simp
next
  case (Matched info cmd params)
  from loop_body_Matched [OF b [unfolded Matched]] obtain n d where
    n: "i + n \<le> length data" "cmd = bytes_slice data i (i + n)" "tbl cmd = Some d"
    and mc: "matched_command tbl data i n = Inr (Matched info cmd params, j)"
    by blast
  from n have len: "length cmd = n" by (simp add: bytes_slice_def)
  obtain pl where pl: "param_length data i n = Inr pl"
    using param_length_total by blast
  from n have d: "tbl (bytes_slice data i (i + n)) = Some d" by simp
  from mc matched_command_eq [where tbl = tbl, OF pl d] have
    params: "params = (if 0 < pl \<and> i + n + 2 + pl \<le> length data
             then bytes_slice data (i + n + 2) (i + n + 2 + pl) else [])"
    and j: "j = i + n + (if 0 < pl then pl + 2 else 0)"
    by auto
  consider (none) "pl = 0" | (fit) "0 < pl" "i + n + 2 + pl \<le> length data"
    | (truncated) "0 < pl" "length data < i + n + 2 + pl"
    by linarith
  then show ?thesis
  proof cases
    case none
    with params j n len Matched show ?thesis by simp
  next
    case fit
    with params have ne: "params \<noteq> []"
      by (auto simp: bytes_slice_def)
    from fit j have j': "j = i + n + 2 + pl" by simp
    have "bytes_slice data i (i + n) @ bytes_slice data (i + n) (i + n + 2) @
          bytes_slice data (i + n + 2) (i + n + 2 + pl) = bytes_slice data i (i + n + 2 + pl)"
      by (simp add: bytes_slice_append)
    with ne fit params n len Matched j' show ?thesis by simp
  next
    case truncated
    with params have e: "params = []" by simp
    from truncated j have j': "j = i + n + 2 + pl" "j \<noteq> i + n" "length data \<le> j" by simp_all
    have "bytes_slice data i (i + n) @ bytes_slice data (i + n) (length data) =
          bytes_slice data i (length data)"
      using n by (simp add: bytes_slice_append)
    with e j' n len Matched bytes_slice_clip [OF j'(3), of i] show ?thesis by simp
  qed
qed

lemma fold_increment:
  "fold (\<lambda>k m. increment m k) ks m =
     (\<lambda>k. if k \<in> set ks
          then Some ((case m k of None \<Rightarrow> 0 | Some c \<Rightarrow> c) + int (count_list ks k))
          else m k)"
proof (induction ks arbitrary: m)
  case Nil
  show ?case by simp
next
  case (Cons a ks)
  show ?case
    unfolding fold_Cons comp_def Cons.IH
    by (rule ext) (simp add: increment_def)
qed

lemma fold_update_self_commands:
  "commands_found (fold update_self sts self) =
     fold (\<lambda>k m. increment m k) (concat (map counted_keys sts)) (commands_found self)"
proof (induction sts arbitrary: self)
  case Nil
  show ?case by simp
next
  case (Cons st sts)
  show ?case by (cases st) (simp_all add: Cons.IH)
qed

lemma fold_update_self_unknown:
  "unknown_commands (fold update_self sts self) =
     unknown_commands self \<union> set (concat (map recorded_unknowns sts))"
proof (induction sts arbitrary: self)
  case Nil
  show ?case by simp
next
  case (Cons st sts)
  show ?case by (cases st) (simp_all add: Cons.IH)
qed

lemma parse_packet_steps:
  "parse_packet tbl data self =
     Inr (concat (map (\<lambda>st. append_step st []) (steps tbl data)),
          fold update_self (steps tbl data) self)"
  by (simp add: parse_packet_def parse_loop_iterations fold_append_step steps_def)

text \<open>The statistics after a capture, whatever the order of its packets.\<close>

lemma parse_file_statistics:
  "\<exists>s. parse_file tbl packets self = Inr s \<and>
       commands_found s =
         fold (\<lambda>k m. increment m k)
           (concat (map (\<lambda>(timestamp, direction, packet_data).
              concat (map counted_keys (steps tbl packet_data))) packets))
           (commands_found self) \<and>
       unknown_commands s =
         unknown_commands self \<union>
         set (concat (map (\<lambda>(timestamp, direction, packet_data).
              concat (map recorded_unknowns (steps tbl packet_data))) packets))"
proof (induction packets arbitrary: self)
  case Nil
  show ?case by simp
next
  case (Cons p packets)
  obtain timestamp direction packet_data where p: "p = (timestamp, direction, packet_data)"
    by (cases p)
  let ?parsed = "concat (map (\<lambda>st. append_step st []) (steps tbl packet_data))"
  let ?self' = "fold update_self (steps tbl packet_data) self"
  let ?next = "if ?parsed \<noteq> []
      then ?self'\<lparr>parsed_data := parsed_data ?self' @ [(timestamp, direction, ?parsed)]\<rparr>
      else ?self'"
  have cf: "commands_found ?next = commands_found ?self'"
    and uc: "unknown_commands ?next = unknown_commands ?self'"
    by simp_all
  from Cons.IH [of ?next] obtain s where s: "parse_file tbl packets ?next = Inr s"
    "commands_found s =
         fold (\<lambda>k m. increment m k)
           (concat (map (\<lambda>(timestamp, direction, packet_data).
              concat (map counted_keys (steps tbl packet_data))) packets))
           (commands_found ?next)"
    "unknown_commands s =
         unknown_commands ?next \<union>
         set (concat (map (\<lambda>(timestamp, direction, packet_data).
              concat (map recorded_unknowns (steps tbl packet_data))) packets))"
    by blast
  have run: "parse_file tbl (p # packets) self = Inr s"
    unfolding p using s(1) by (simp add: parse_packet_steps)
  have "commands_found s =
         fold (\<lambda>k m. increment m k)
           (concat (map (\<lambda>(timestamp, direction, packet_data).
              concat (map counted_keys (steps tbl packet_data))) (p # packets)))
           (commands_found self)"
    unfolding s(2) cf p by (simp add: fold_update_self_commands)
  moreover have "unknown_commands s =
         unknown_commands self \<union>
         set (concat (map (\<lambda>(timestamp, direction, packet_data).
              concat (map recorded_unknowns (steps tbl packet_data))) (p # packets)))"
    unfolding s(3) uc p by (simp add: fold_update_self_unknown Un_assoc)
  ultimately show ?case using run by blast
qed

lemma mset_concat_map_cong:
  assumes "mset xs = mset ys"
  shows "mset (concat (map f xs)) = mset (concat (map f ys))"
proof -
  have "mset (concat (map f xs)) = sum_mset (image_mset (mset \<circ> f) (mset xs))"
    by (simp add: mset_concat comp_def flip: sum_mset_sum_list)
  also have "\<dots> = sum_mset (image_mset (mset \<circ> f) (mset ys))"
    by (simp add: assms)
  also have "\<dots> = mset (concat (map f ys))"
    by (simp add: mset_concat comp_def flip: sum_mset_sum_list)
  finally show ?thesis .
qed

lemma fold_increment_mset:
  assumes "mset ks = mset ks'"
  shows "fold (\<lambda>k m. increment m k) ks m = fold (\<lambda>k m. increment m k) ks' m"
proof -
  from assms have s: "set ks = set ks'" by (rule mset_eq_setD)
  from assms have c: "count_list ks = count_list ks'"
    by (intro ext) (metis count_mset)
  show ?thesis
    by (simp only: fold_increment s c)
qed

lemma step_span_claimed:
  assumes b: "loop_body tbl data i = Inr (st, j)" and j: "j \<le> length data"
  shows "step_span data (i, st, j) = claimed_span data (i, st, j)"
proof (cases st)
  case Skipped
  then show ?thesis by simp
next
  case (Unknown u)
  then show ?thesis by simp
next
  case (Matched info cmd params)
  from loop_body_Matched [OF b [unfolded Matched]] obtain n d where
    n: "i + n \<le> length data" "cmd = bytes_slice data i (i + n)" "tbl cmd = Some d"
    and mc: "matched_command tbl data i n = Inr (Matched info cmd params, j)"
    by blast
  from n have len: "length cmd = n" by (simp add: bytes_slice_def)
  obtain pl where pl: "param_length data i n = Inr pl"
    using param_length_total by blast
  from n have d: "tbl (bytes_slice data i (i + n)) = Some d" by simp
  from mc matched_command_eq [where tbl = tbl, OF pl d] have
    params: "params = (if 0 < pl \<and> i + n + 2 + pl \<le> length data
             then bytes_slice data (i + n + 2) (i + n + 2 + pl) else [])"
    and j': "j = i + n + (if 0 < pl then pl + 2 else 0)"
    by auto
  show ?thesis
  proof (cases "params = []")
    case False
    with Matched show ?thesis by simp
  next
    case True
    have "pl = 0"
    proof (rule ccontr)
      assume "pl \<noteq> 0"
      with j' j have "0 < pl" "i + n + 2 + pl \<le> length data" by simp_all
      with params have "length params = pl" by (simp add: bytes_slice_def)
      with True \<open>0 < pl\<close> show False by simp
    qed
    with j' len have "j = i + length cmd" by simp
    with True Matched show ?thesis by simp
  qed
qed

section \<open>Evaluation on concrete buffers\<close>

lemmas eval_defs = parse_packet_def parse_loop.simps iterations.simps loop_body_def
  matched_command_def param_length_def getitem_def lookup_def bytes_slice_def ESC_def
  hex_def hex_digit_def increment_def Let_def

section \<open>The claims\<close>

text \<open>
  C8. \<^verbatim>\<open>parse_packet\<close> never raises, whatever the bytes of the buffer (and whatever the
  table): it returns a command list and a parser state, so no index read by
  \<^verbatim>\<open>data[k]\<close> lies outside the buffer and no subscript of the table misses its key.
  The same holds for a single iteration at any cursor. Truncated parameter regions and
  unrecognised escape sequences therefore end in the branches without parameters and for
  unknown sequences.
\<close>

theorem parse_packet_never_raises:
  "(\<exists>parsed_commands self'. parse_packet tbl data self = Inr (parsed_commands, self')) \<and>
   (\<exists>st j. loop_body tbl data i = Inr (st, j)) \<and>
   (\<exists>n. param_length data i cmd_len = Inr n)"
  using loop_body_total [of tbl data i] param_length_total [of data i cmd_len]
  by (simp add: parse_packet_def parse_loop_iterations)

text \<open>
  C6. For every buffer, \<^verbatim>\<open>parse_packet\<close> returns the result of folding the effects of
  the iterations of its loop, the loop makes at most as many iterations as the buffer has
  bytes, and every iteration starts inside the buffer and moves the cursor forward by at
  least 1.
\<close>

theorem parse_packet_terminates:
  "parse_packet tbl data self =
     Inr (fold append_step (map (fst \<circ> snd) (iterations tbl data 0)) [],
          fold update_self (map (fst \<circ> snd) (iterations tbl data 0)) self) \<and>
   length (iterations tbl data 0) \<le> length data \<and>
   (\<forall>(i, st, j) \<in> set (iterations tbl data 0).
      i < length data \<and> loop_body tbl data i = Inr (st, j) \<and> i + 1 \<le> j)"
proof (intro conjI)
  show "parse_packet tbl data self =
     Inr (fold append_step (map (fst \<circ> snd) (iterations tbl data 0)) [],
          fold update_self (map (fst \<circ> snd) (iterations tbl data 0)) self)"
    by (simp add: parse_packet_def parse_loop_iterations)
  show "length (iterations tbl data 0) \<le> length data"
    using iterations_length [of tbl data 0] by simp
  show "\<forall>(i, st, j) \<in> set (iterations tbl data 0).
      i < length data \<and> loop_body tbl data i = Inr (st, j) \<and> i + 1 \<le> j"
  proof (clarify, intro conjI)
    fix i st j
    assume m: "(i, st, j) \<in> set (iterations tbl data 0)"
    from iterations_entries [OF m] show "i < length data" by simp
    from iterations_entries [OF m] show b: "loop_body tbl data i = Inr (st, j)" by simp
    from loop_body_advances [OF b] show "i + 1 \<le> j" by simp
  qed
qed

theorem parse_packet_terminates_witness:
  "length (iterations ESCP_COMMANDS [0x1b, 0xff, 0x1b, 0x40] 0) \<le> 4 \<and>
   (0, Unknown [0x1b, 0xff], 1) \<in> set (iterations ESCP_COMMANDS [0x1b, 0xff, 0x1b, 0x40] 0) \<and>
   loop_body ESCP_COMMANDS [0x1b, 0xff, 0x1b, 0x40] 0 = Inr (Unknown [0x1b, 0xff], 1)"
  using parse_packet_terminates [of ESCP_COMMANDS "[0x1b, 0xff, 0x1b, 0x40]" init]
  by (simp add: eval_defs ESCP_COMMANDS_def)

text \<open>
  C10. The commands returned by one call of \<^verbatim>\<open>parse_packet\<close> are in strictly
  increasing order of position, and each of them reports a slice of the input: for some
  matched length between 2 and 5 the slice of that length at the reported position lies inside
  the buffer, is a key of the table with the reported description, and its hexadecimal
  encoding is the reported command.
\<close>

theorem commands_in_input:
  assumes "parse_packet tbl data self = Inr (parsed_commands, self')"
  shows "sorted_wrt (<) (map position parsed_commands) \<and>
         (\<forall>c\<in>set parsed_commands.
            \<exists>n. 2 \<le> n \<and> n \<le> 5 \<and> position c + n \<le> length data \<and>
                command c = hex (bytes_slice data (position c) (position c + n)) \<and>
                tbl (bytes_slice data (position c) (position c + n)) = Some (description c))"
proof
  from assms have pc: "parsed_commands =
      concat (map (\<lambda>st. append_step st []) (map (fst \<circ> snd) (iterations tbl data 0)))"
    by (simp add: parse_packet_def parse_loop_iterations fold_append_step)
  show "sorted_wrt (<) (map position parsed_commands)"
    unfolding pc by (rule iterations_commands_sorted)
  show "\<forall>c\<in>set parsed_commands.
            \<exists>n. 2 \<le> n \<and> n \<le> 5 \<and> position c + n \<le> length data \<and>
                command c = hex (bytes_slice data (position c) (position c + n)) \<and>
                tbl (bytes_slice data (position c) (position c + n)) = Some (description c)"
  proof
    fix c assume "c \<in> set parsed_commands"
    with pc iterations_commands_position [of c tbl data 0] obtain cmd params j where
      "(position c, Matched c cmd params, j) \<in> set (iterations tbl data 0)" by blast
    from iterations_entries [OF this] have
      "loop_body tbl data (position c) = Inr (Matched c cmd params, j)" by simp
    from loop_body_Matched [OF this] obtain n d where
      n: "2 \<le> n" "n \<le> 5" "position c + n \<le> length data"
        "cmd = bytes_slice data (position c) (position c + n)" "tbl cmd = Some d"
      and c: "c = \<lparr>position = position c, command = hex cmd, description = d,
             parameters = (if params \<noteq> [] then hex params else '''')\<rparr>"
      by blast
    from c have "command c = hex cmd" "description c = d"
      by (metis cmd_info.select_convs(2), metis cmd_info.select_convs(3))
    with n show "\<exists>n. 2 \<le> n \<and> n \<le> 5 \<and> position c + n \<le> length data \<and>
                command c = hex (bytes_slice data (position c) (position c + n)) \<and>
                tbl (bytes_slice data (position c) (position c + n)) = Some (description c)"
      by blast
  qed
qed

theorem commands_in_input_witness:
  "sorted_wrt (<) (map position
      [\<lparr>position = 0, command = ''1b2847'', description = ''Select graphics mode'',
        parameters = ''aa''\<rparr>,
       \<lparr>position = 6, command = ''1b40'', description = ''Initialize printer'',
        parameters = ''''\<rparr>]) \<and>
   parse_packet ESCP_COMMANDS [0x1b, 0x28, 0x47, 0x01, 0x00, 0xaa, 0x1b, 0x40] init =
     Inr ([\<lparr>position = 0, command = ''1b2847'', description = ''Select graphics mode'',
             parameters = ''aa''\<rparr>,
           \<lparr>position = 6, command = ''1b40'', description = ''Initialize printer'',
             parameters = ''''\<rparr>],
          \<lparr>commands_found = [[0x1b, 0x28, 0x47] \<mapsto> 1, [0x1b, 0x40] \<mapsto> 1],
           parsed_data = [], unknown_commands = {}\<rparr>)"
proof -
  have run: "parse_packet ESCP_COMMANDS [0x1b, 0x28, 0x47, 0x01, 0x00, 0xaa, 0x1b, 0x40] init =
     Inr ([\<lparr>position = 0, command = ''1b2847'', description = ''Select graphics mode'',
             parameters = ''aa''\<rparr>,
           \<lparr>position = 6, command = ''1b40'', description = ''Initialize printer'',
             parameters = ''''\<rparr>],
          \<lparr>commands_found = [[0x1b, 0x28, 0x47] \<mapsto> 1, [0x1b, 0x40] \<mapsto> 1],
           parsed_data = [], unknown_commands = {}\<rparr>)"
    by (simp add: eval_defs ESCP_COMMANDS_def init_def)
  from commands_in_input [OF run] run show ?thesis by simp
qed

text \<open>
  C7. Take a table in which no slice tried at the start of the 4-byte buffer
  \<open>[ESC, 0xFF, ESC, c]\<close> is a key (the slices of 4, 3 and 2 bytes) and in which
  \<open>[ESC, c]\<close> is a key. The loop then makes exactly three iterations: at cursor 0 it
  records the unknown sequence \<open>[ESC, 0xFF]\<close> and advances by 1, at cursor 1 it passes over
  \<open>0xFF\<close>, and at cursor 2 it matches \<open>[ESC, c]\<close>. \<^verbatim>\<open>parse_packet\<close> returns one
  command, at position 2, counts its key once and adds one unknown sequence.
\<close>

theorem unknown_resynchronization:
  assumes "tbl [0x1b, 0xff, 0x1b, c] = None" and "tbl [0x1b, 0xff, 0x1b] = None"
    and "tbl [0x1b, 0xff] = None" and "tbl [0x1b, c] = Some d"
  shows "iterations tbl [0x1b, 0xff, 0x1b, c] 0 =
           [(0, Unknown [0x1b, 0xff], 1),
            (1, Skipped, 2),
            (2, Matched \<lparr>position = 2, command = hex [0x1b, c], description = d,
                         parameters = ''''\<rparr> [0x1b, c] [], 4)] \<and>
         parse_packet tbl [0x1b, 0xff, 0x1b, c] self =
           Inr ([\<lparr>position = 2, command = hex [0x1b, c], description = d,
                  parameters = ''''\<rparr>],
                self\<lparr>commands_found := increment (commands_found self) [0x1b, c],
                     unknown_commands := insert [0x1b, 0xff] (unknown_commands self)\<rparr>)"
proof -
  have b0: "loop_body tbl [0x1b, 0xff, 0x1b, c] 0 = Inr (Unknown [0x1b, 0xff], 1)"
    using assms by (simp add: loop_body_def bytes_slice_def ESC_def)
  have b1: "loop_body tbl [0x1b, 0xff, 0x1b, c] 1 = Inr (Skipped, 2)"
    by (simp add: loop_body_def bytes_slice_def ESC_def)
  have b2: "loop_body tbl [0x1b, 0xff, 0x1b, c] 2 =
      Inr (Matched \<lparr>position = 2, command = hex [0x1b, c], description = d,
                         parameters = ''''\<rparr> [0x1b, c] [], 4)"
    using assms
    by (simp add: loop_body_def bytes_slice_def ESC_def matched_command_def param_length_def
        lookup_def Let_def)
  have its: "iterations tbl [0x1b, 0xff, 0x1b, c] 0 =
           [(0, Unknown [0x1b, 0xff], 1),
            (1, Skipped, 2),
            (2, Matched \<lparr>position = 2, command = hex [0x1b, c], description = d,
                         parameters = ''''\<rparr> [0x1b, c] [], 4)]"
  proof -
    have "iterations tbl [0x1b, 0xff, 0x1b, c] 4 = []"
      by (rule iterations_end) simp
    moreover have "iterations tbl [0x1b, 0xff, 0x1b, c] 2 =
        (2, Matched \<lparr>position = 2, command = hex [0x1b, c], description = d,
                         parameters = ''''\<rparr> [0x1b, c] [], 4) #
        iterations tbl [0x1b, 0xff, 0x1b, c] 4"
      by (rule iterations_step [OF _ b2]) simp
    moreover have "iterations tbl [0x1b, 0xff, 0x1b, c] 1 =
        (1, Skipped, 2) # iterations tbl [0x1b, 0xff, 0x1b, c] 2"
      by (rule iterations_step [OF _ b1]) simp
    moreover have "iterations tbl [0x1b, 0xff, 0x1b, c] 0 =
        (0, Unknown [0x1b, 0xff], 1) # iterations tbl [0x1b, 0xff, 0x1b, c] 1"
      by (rule iterations_step [OF _ b0]) simp
    ultimately show ?thesis by simp
  qed
  show ?thesis
    by (simp add: its parse_packet_def parse_loop_iterations)
qed

theorem unknown_resynchronization_witness:
  "ESCP_COMMANDS [0x1b, 0xff, 0x1b, 0x40] = None \<and> ESCP_COMMANDS [0x1b, 0xff, 0x1b] = None \<and>
   ESCP_COMMANDS [0x1b, 0xff] = None \<and> ESCP_COMMANDS [0x1b, 0x40] = Some ''Initialize printer'' \<and>
   parse_packet ESCP_COMMANDS [0x1b, 0xff, 0x1b, 0x40] init =
     Inr ([\<lparr>position = 2, command = ''1b40'', description = ''Initialize printer'',
            parameters = ''''\<rparr>],
          \<lparr>commands_found = [[0x1b, 0x40] \<mapsto> 1], parsed_data = [],
           unknown_commands = {[0x1b, 0xff]}\<rparr>)"
proof -
  have h: "ESCP_COMMANDS [0x1b, 0xff, 0x1b, 0x40] = None" "ESCP_COMMANDS [0x1b, 0xff, 0x1b] = None"
    "ESCP_COMMANDS [0x1b, 0xff] = None" "ESCP_COMMANDS [0x1b, 0x40] = Some ''Initialize printer''"
    by (simp_all add: ESCP_COMMANDS_def)
  from unknown_resynchronization [OF h, of init] h show ?thesis
    by (simp add: init_def increment_def hex_def hex_digit_def)
qed

text \<open>
  C2. At a cursor on an escape byte the slice lengths 5, 4, 3, 2 are tried in this order and
  the first that is a key of the table decides the iteration: when the slice of \<open>n\<close> bytes is
  a key and no longer slice that fits in the buffer is, the iteration matches the slice of
  \<open>n\<close> bytes, whatever the shorter slices are. In particular, for a table with a 2-byte key
  \<open>E2\<close> and a 5-byte key \<open>E5\<close> that begins with the bytes of \<open>E2\<close> (and so with the
  escape byte), parsing the buffer \<open>E5\<close> returns exactly one command, that of \<open>E5\<close>, and
  counts \<open>E5\<close> only.
\<close>

theorem longest_match_wins:
  "(bytes_slice data i (i + 1) = ESC \<and> 2 \<le> n \<and> n \<le> 5 \<and> i + n \<le> length data \<and>
    tbl (bytes_slice data i (i + n)) = Some d \<and>
    (\<forall>m. n < m \<and> m \<le> 5 \<and> i + m \<le> length data \<longrightarrow> tbl (bytes_slice data i (i + m)) = None)
    \<longrightarrow> (\<exists>info params j.
           loop_body tbl data i = Inr (Matched info (bytes_slice data i (i + n)) params, j) \<and>
           position info = i \<and> command info = hex (bytes_slice data i (i + n)) \<and>
           description info = d)) \<and>
   (length E2 = 2 \<and> length E5 = 5 \<and> take 2 E5 = E2 \<and> take 1 E5 = ESC \<and>
    tbl E2 = Some d2 \<and> tbl E5 = Some d5
    \<longrightarrow> parse_packet tbl E5 self =
          Inr ([\<lparr>position = 0, command = hex E5, description = d5, parameters = ''''\<rparr>],
               self\<lparr>commands_found := increment (commands_found self) E5\<rparr>))"
proof (intro conjI impI)
  assume h: "bytes_slice data i (i + 1) = ESC \<and> 2 \<le> n \<and> n \<le> 5 \<and> i + n \<le> length data \<and>
    tbl (bytes_slice data i (i + n)) = Some d \<and>
    (\<forall>m. n < m \<and> m \<le> 5 \<and> i + m \<le> length data \<longrightarrow> tbl (bytes_slice data i (i + m)) = None)"
  then have lb: "loop_body tbl data i = matched_command tbl data i n"
    by (intro loop_body_longest [of data i n tbl d]) simp_all
  obtain pl where pl: "param_length data i n = Inr pl"
    using param_length_total by blast
  from h have d: "tbl (bytes_slice data i (i + n)) = Some d" by simp
  show "\<exists>info params j.
           loop_body tbl data i = Inr (Matched info (bytes_slice data i (i + n)) params, j) \<and>
           position info = i \<and> command info = hex (bytes_slice data i (i + n)) \<and>
           description info = d"
    unfolding lb matched_command_eq [where tbl = tbl, OF pl d] by simp
next
  assume h: "length E2 = 2 \<and> length E5 = 5 \<and> take 2 E5 = E2 \<and> take 1 E5 = ESC \<and>
    tbl E2 = Some d2 \<and> tbl E5 = Some d5"
  then have whole: "bytes_slice E5 0 (0 + 5) = E5" and esc: "bytes_slice E5 0 (0 + 1) = ESC"
    by (simp_all add: bytes_slice_def)
  from h whole have hit: "tbl (bytes_slice E5 0 (0 + 5)) = Some d5" by simp
  have lb: "loop_body tbl E5 0 = matched_command tbl E5 0 5"
    using esc hit h by (intro loop_body_longest [of E5 0 5 tbl d5]) auto
  have pl: "param_length E5 0 5 = Inr 0"
    using h by (simp add: param_length_def)
  have b: "loop_body tbl E5 0 =
      Inr (Matched \<lparr>position = 0, command = hex E5, description = d5, parameters = ''''\<rparr> E5 [], 5)"
    unfolding lb using matched_command_eq [where tbl = tbl, OF pl hit] whole by simp
  have "iterations tbl E5 0 =
      [(0, Matched \<lparr>position = 0, command = hex E5, description = d5, parameters = ''''\<rparr> E5 [], 5)]"
    using h by (simp add: iterations_step [OF _ b] iterations_end)
  then show "parse_packet tbl E5 self =
          Inr ([\<lparr>position = 0, command = hex E5, description = d5, parameters = ''''\<rparr>],
               self\<lparr>commands_found := increment (commands_found self) E5\<rparr>)"
    by (simp add: parse_packet_def parse_loop_iterations)
qed

theorem longest_match_wins_witness:
  "(\<exists>info params j.
      loop_body (map_of [([0x1b, 0x40], ''short''), ([0x1b, 0x40, 1, 2, 3], ''long'')])
        [0x1b, 0x40, 1, 2, 3] 0 = Inr (Matched info [0x1b, 0x40, 1, 2, 3] params, j) \<and>
      position info = 0 \<and> command info = ''1b40010203'' \<and> description info = ''long'') \<and>
   parse_packet (map_of [([0x1b, 0x40], ''short''), ([0x1b, 0x40, 1, 2, 3], ''long'')])
        [0x1b, 0x40, 1, 2, 3] init =
     Inr ([\<lparr>position = 0, command = ''1b40010203'', description = ''long'', parameters = ''''\<rparr>],
          \<lparr>commands_found = [[0x1b, 0x40, 1, 2, 3] \<mapsto> 1], parsed_data = [],
           unknown_commands = {}\<rparr>)"
  using longest_match_wins [of "[0x1b, 0x40, 1, 2, 3]" 0 5
      "map_of [([0x1b, 0x40], ''short''), ([0x1b, 0x40, 1, 2, 3], ''long'')]" "''long''"
      "[0x1b, 0x40]" "[0x1b, 0x40, 1, 2, 3]" "''short''" "''long''" init]
  by (simp add: bytes_slice_def ESC_def init_def increment_def hex_def hex_digit_def)

text \<open>
  C4. The parameter length is not the little-endian value of the two bytes after the prefix
  when these are the last two bytes of the buffer: the high byte is then left out. For the
  buffer \<open>ESC ( G 00 1b\<close> both length bytes are inside the buffer and encode
  \<open>0 + 256 * 27 = 6912\<close>, but the parameter length used is 0: the cursor advances by 3 only,
  and the byte \<open>1b\<close> of the length field is then read as the start of an escape sequence and
  recorded as unknown.
\<close>

theorem param_length_drops_high_byte:
  "param_length [0x1b, 0x28, 0x47, 0x00, 0x1b] 0 3 = Inr 0 \<and>
   getitem [0x1b, 0x28, 0x47, 0x00, 0x1b] 3 = Inr 0 \<and>
   getitem [0x1b, 0x28, 0x47, 0x00, 0x1b] 4 = Inr 27 \<and>
   parse_packet ESCP_COMMANDS [0x1b, 0x28, 0x47, 0x00, 0x1b] init =
     Inr ([\<lparr>position = 0, command = ''1b2847'', description = ''Select graphics mode'',
            parameters = ''''\<rparr>],
          \<lparr>commands_found = [[0x1b, 0x28, 0x47] \<mapsto> 1], parsed_data = [],
           unknown_commands = {[0x1b]}\<rparr>)"
  by (simp add: eval_defs ESCP_COMMANDS_def init_def)

text \<open>
  C3, as stated, fails: with a parameter length of 5 and only 2 bytes after the length field
  the command is recorded without parameters, but the cursor moves from 0 to 10 and not to 3,
  so that the \<open>ESC @\<close> at offset 5 is never parsed.
\<close>

theorem truncated_region_counterexample:
  "param_length [0x1b, 0x28, 0x47, 0x05, 0x00, 0x1b, 0x40] 0 3 = Inr 5 \<and>
   length [0x1b, 0x28, 0x47, 0x05, 0x00, 0x1b, 0x40 :: byte] < 0 + 3 + 2 + 5 \<and>
   loop_body ESCP_COMMANDS [0x1b, 0x28, 0x47, 0x05, 0x00, 0x1b, 0x40] 0 =
     Inr (Matched \<lparr>position = 0, command = ''1b2847'', description = ''Select graphics mode'',
                   parameters = ''''\<rparr> [0x1b, 0x28, 0x47] [], 10) \<and>
   (10 :: nat) \<noteq> 0 + 3 \<and>
   parse_packet ESCP_COMMANDS [0x1b, 0x28, 0x47, 0x05, 0x00, 0x1b, 0x40] init =
     Inr ([\<lparr>position = 0, command = ''1b2847'', description = ''Select graphics mode'',
            parameters = ''''\<rparr>],
          \<lparr>commands_found = [[0x1b, 0x28, 0x47] \<mapsto> 1], parsed_data = [],
           unknown_commands = {}\<rparr>)"
  by (simp add: eval_defs ESCP_COMMANDS_def init_def)

text \<open>
  C3, amended. For a match of a prefix of at least 3 bytes: when the parameter length is 0,
  the command is recorded with empty parameters and the cursor advances past the prefix only;
  when the parameter length is greater than 0 and the two length bytes with that many
  parameter bytes do not fit in the buffer, the command is recorded with empty parameters and
  the cursor advances by the prefix, the length field and the parameter length, which is past
  the end of the buffer, so that the loop ends there.
\<close>

theorem no_parameters_cases:
  assumes "loop_body tbl data i = Inr (Matched info cmd params, j)"
    and "3 \<le> length cmd"
    and "param_length data i (length cmd) = Inr param_len"
  shows "(param_len = 0 \<longrightarrow>
            params = [] \<and> parameters info = '''' \<and> j = i + length cmd) \<and>
         (0 < param_len \<and> length data < i + length cmd + 2 + param_len \<longrightarrow>
            params = [] \<and> parameters info = '''' \<and> j = i + length cmd + 2 + param_len \<and>
            length data < j \<and> iterations tbl data j = [])"
proof -
  from loop_body_Matched [OF assms(1)] obtain n d where
    n: "i + n \<le> length data" "cmd = bytes_slice data i (i + n)" "tbl cmd = Some d"
    and mc: "matched_command tbl data i n = Inr (Matched info cmd params, j)"
    by blast
  from n have len: "length cmd = n" by (simp add: bytes_slice_def)
  from assms(3) len have pl: "param_length data i n = Inr param_len" by simp
  from n have d: "tbl (bytes_slice data i (i + n)) = Some d" by simp
  from mc matched_command_eq [where tbl = tbl, OF pl d] have
    params: "params = (if 0 < param_len \<and> i + n + 2 + param_len \<le> length data
             then bytes_slice data (i + n + 2) (i + n + 2 + param_len) else [])"
    and info: "parameters info = (if 0 < param_len \<and> i + n + 2 + param_len \<le> length data
             then hex (bytes_slice data (i + n + 2) (i + n + 2 + param_len)) else '''')"
    and j: "j = i + n + (if 0 < param_len then param_len + 2 else 0)"
    by auto
  show ?thesis
    using params info j len by (auto simp: iterations_end)
qed

theorem no_parameters_cases_witness:
  "loop_body ESCP_COMMANDS [0x1b, 0x28, 0x47, 0x05, 0x00, 0x1b, 0x40] 0 =
     Inr (Matched \<lparr>position = 0, command = ''1b2847'', description = ''Select graphics mode'',
                   parameters = ''''\<rparr> [0x1b, 0x28, 0x47] [], 10) \<and>
   param_length [0x1b, 0x28, 0x47, 0x05, 0x00, 0x1b, 0x40] 0 3 = Inr 5 \<and>
   iterations ESCP_COMMANDS [0x1b, 0x28, 0x47, 0x05, 0x00, 0x1b, 0x40] 10 = [] \<and>
   loop_body ESCP_COMMANDS [0x1b, 0x28, 0x47, 0x00, 0x00, 0x1b, 0x40] 0 =
     Inr (Matched \<lparr>position = 0, command = ''1b2847'', description = ''Select graphics mode'',
                   parameters = ''''\<rparr> [0x1b, 0x28, 0x47] [], 3) \<and>
   param_length [0x1b, 0x28, 0x47, 0x00, 0x00, 0x1b, 0x40] 0 3 = Inr 0"
proof -
  have b1: "loop_body ESCP_COMMANDS [0x1b, 0x28, 0x47, 0x05, 0x00, 0x1b, 0x40] 0 =
     Inr (Matched \<lparr>position = 0, command = ''1b2847'', description = ''Select graphics mode'',
                   parameters = ''''\<rparr> [0x1b, 0x28, 0x47] [], 10)"
    by (simp add: eval_defs ESCP_COMMANDS_def)
  have p1: "param_length [0x1b, 0x28, 0x47, 0x05, 0x00, 0x1b, 0x40] 0 (length [0x1b, 0x28, 0x47 :: byte]) = Inr 5"
    by (simp add: eval_defs)
  have b2: "loop_body ESCP_COMMANDS [0x1b, 0x28, 0x47, 0x00, 0x00, 0x1b, 0x40] 0 =
     Inr (Matched \<lparr>position = 0, command = ''1b2847'', description = ''Select graphics mode'',
                   parameters = ''''\<rparr> [0x1b, 0x28, 0x47] [], 3)"
    by (simp add: eval_defs ESCP_COMMANDS_def)
  have p2: "param_length [0x1b, 0x28, 0x47, 0x00, 0x00, 0x1b, 0x40] 0 (length [0x1b, 0x28, 0x47 :: byte]) = Inr 0"
    by (simp add: eval_defs)
  from no_parameters_cases [OF b1 _ p1] no_parameters_cases [OF b2 _ p2] b1 b2
  show ?thesis by (simp add: param_length_def getitem_def)
qed

text \<open>
  C1, as stated, fails when the length bytes encode 0: the command at offset 0 of
  \<open>ESC ( G 00 00\<close> has the zero payload bytes as parameters, but the cursor after it is 3,
  not \<open>0 + 3 + 2 + 0\<close>.
\<close>

theorem parameter_extraction_counterexample:
  "ESCP_COMMANDS [0x1b, 0x28, 0x47] = Some ''Select graphics mode'' \<and>
   iterations ESCP_COMMANDS [0x1b, 0x28, 0x47, 0x00, 0x00] 0 =
     [(0, Matched \<lparr>position = 0, command = ''1b2847'', description = ''Select graphics mode'',
                   parameters = ''''\<rparr> [0x1b, 0x28, 0x47] [], 3),
      (3, Skipped, 4), (4, Skipped, 5)] \<and>
   (3 :: nat) \<noteq> 0 + length [0x1b, 0x28, 0x47 :: byte] + 2 + 0"
  by (simp add: eval_defs ESCP_COMMANDS_def)

text \<open>
  C1, amended to a parameter length of at least 1. Let the buffer hold, at an offset that the
  cursor reaches, a key \<open>P\<close> of \<open>ESCP_COMMANDS\<close> of at least 3 bytes, then two bytes
  \<open>lo\<close>, \<open>hi\<close>, then a payload of \<open>lo + 256 * hi \<ge> 1\<close> bytes, then any rest. The
  iteration at that offset matches \<open>P\<close> with exactly the payload as parameters and leaves
  the cursor at offset + length of \<open>P\<close> + 2 + length of the payload, and
  \<^verbatim>\<open>parse_packet\<close> returns exactly one command at that offset.
\<close>

theorem parameter_extraction:
  assumes key: "ESCP_COMMANDS P = Some d" and compound: "3 \<le> length P"
    and data: "data = pre @ P @ [lo, hi] @ payload @ rest"
    and N: "length payload = unat lo + 256 * unat hi" and pos: "0 < length payload"
    and reached: "length pre \<in> fst ` set (iterations ESCP_COMMANDS data 0)"
  shows "loop_body ESCP_COMMANDS data (length pre) =
           Inr (Matched \<lparr>position = length pre, command = hex P, description = d,
                         parameters = hex payload\<rparr> P payload,
                length pre + length P + 2 + length payload) \<and>
         (\<exists>parsed_commands self'.
            parse_packet ESCP_COMMANDS data self = Inr (parsed_commands, self') \<and>
            filter (\<lambda>c. position c = length pre) parsed_commands =
              [\<lparr>position = length pre, command = hex P, description = d,
                parameters = hex payload\<rparr>])"
proof -
  let ?i = "length pre"
  from ESCP_COMMANDS_keys [OF key] compound have len: "length P = 3" and esc: "take 1 P = ESC"
    by simp_all
  have sl: "bytes_slice data ?i (?i + 3) = P"
    using len by (simp add: data bytes_slice_def)
  have e: "bytes_slice data ?i (?i + 1) = ESC"
    using esc len by (simp add: data bytes_slice_def)
  have fits: "?i + 3 \<le> length data"
    using len by (simp add: data)
  have longer: "\<forall>m. 3 < m \<and> m \<le> 5 \<and> ?i + m \<le> length data \<longrightarrow>
                   ESCP_COMMANDS (bytes_slice data ?i (?i + m)) = None"
  proof (intro allI impI)
    fix m assume m: "3 < m \<and> m \<le> 5 \<and> ?i + m \<le> length data"
    then have l: "length (bytes_slice data ?i (?i + m)) = m"
      by (auto simp: bytes_slice_def)
    show "ESCP_COMMANDS (bytes_slice data ?i (?i + m)) = None"
    proof (rule ccontr)
      assume "ESCP_COMMANDS (bytes_slice data ?i (?i + m)) \<noteq> None"
      then obtain d' where "ESCP_COMMANDS (bytes_slice data ?i (?i + m)) = Some d'" by blast
      from ESCP_COMMANDS_keys [OF this] l m show False by simp
    qed
  qed
  have lb: "loop_body ESCP_COMMANDS data ?i = matched_command ESCP_COMMANDS data ?i 3"
    using e fits key sl longer
    by (intro loop_body_longest [of data ?i 3 ESCP_COMMANDS d]) simp_all
  have lo: "data ! (?i + 3) = lo" and hi: "data ! (?i + 3 + 1) = hi"
    using len by (simp_all add: data nth_append)
  have dlen: "length data = ?i + 3 + 2 + length payload + length rest"
    using len by (simp add: data)
  have pl: "param_length data ?i 3 = Inr (length payload)"
    using pos lo hi dlen N by (simp add: param_length_value)
  have par: "bytes_slice data (?i + 3 + 2) (?i + 3 + 2 + length payload) = payload"
    using len by (simp add: data bytes_slice_def)
  have step: "loop_body ESCP_COMMANDS data ?i =
           Inr (Matched \<lparr>position = ?i, command = hex P, description = d,
                         parameters = hex payload\<rparr> P payload,
                ?i + length P + 2 + length payload)"
    unfolding lb
    using matched_command_eq [where tbl = ESCP_COMMANDS, OF pl] key sl par pos dlen len
    by simp
  from reached obtain st j where m: "(?i, st, j) \<in> set (iterations ESCP_COMMANDS data 0)"
    by auto
  from iterations_entries [OF m] step have
    "(?i, Matched \<lparr>position = ?i, command = hex P, description = d,
                         parameters = hex payload\<rparr> P payload, j)
       \<in> set (iterations ESCP_COMMANDS data 0)"
    using m by simp
  from reached_command_unique [OF this, of self] step show ?thesis by simp
qed

theorem parameter_extraction_witness:
  "ESCP_COMMANDS [0x1b, 0x28, 0x47] = Some ''Select graphics mode'' \<and>
   0 \<in> fst ` set (iterations ESCP_COMMANDS [0x1b, 0x28, 0x47, 0x02, 0x00, 0xaa, 0xbb, 0x1b, 0x40] 0) \<and>
   loop_body ESCP_COMMANDS [0x1b, 0x28, 0x47, 0x02, 0x00, 0xaa, 0xbb, 0x1b, 0x40] 0 =
     Inr (Matched \<lparr>position = 0, command = ''1b2847'', description = ''Select graphics mode'',
                   parameters = ''aabb''\<rparr> [0x1b, 0x28, 0x47] [0xaa, 0xbb], 7) \<and>
   (\<exists>parsed_commands self'.
      parse_packet ESCP_COMMANDS [0x1b, 0x28, 0x47, 0x02, 0x00, 0xaa, 0xbb, 0x1b, 0x40] init =
        Inr (parsed_commands, self') \<and>
      filter (\<lambda>c. position c = 0) parsed_commands =
        [\<lparr>position = 0, command = ''1b2847'', description = ''Select graphics mode'',
          parameters = ''aabb''\<rparr>])"
proof -
  have key: "ESCP_COMMANDS [0x1b, 0x28, 0x47] = Some ''Select graphics mode''"
    by (simp add: ESCP_COMMANDS_def)
  have reached:
    "length ([] :: bytes) \<in> fst ` set (iterations ESCP_COMMANDS
        ([] @ [0x1b, 0x28, 0x47] @ [0x02, 0x00] @ [0xaa, 0xbb] @ [0x1b, 0x40]) 0)"
    by (simp add: eval_defs ESCP_COMMANDS_def)
  have N: "length [0xaa, 0xbb :: byte] = unat (0x02 :: byte) + 256 * unat (0x00 :: byte)"
    by simp
  from parameter_extraction [OF key _ refl N _ reached, of init] key reached
  show ?thesis by (simp add: hex_def hex_digit_def)
qed

text \<open>
  C5, as stated, fails at a truncated parameter region. In \<open>ESC ( G 05 00 ESC @\<close> the
  length bytes announce 5 parameter bytes and 2 follow: the only iteration matches the prefix
  without parameters and leaves the cursor at 10, behind the end of the buffer. The matched
  prefix is the only span, and 4 of the 7 bytes are covered by none.
\<close>

theorem coverage_counterexample:
  "iterations ESCP_COMMANDS [0x1b, 0x28, 0x47, 0x05, 0x00, 0x1b, 0x40] 0 =
     [(0, Matched \<lparr>position = 0, command = ''1b2847'', description = ''Select graphics mode'',
                   parameters = ''''\<rparr> [0x1b, 0x28, 0x47] [], 10)] \<and>
   concat (map (claimed_span [0x1b, 0x28, 0x47, 0x05, 0x00, 0x1b, 0x40])
     (iterations ESCP_COMMANDS [0x1b, 0x28, 0x47, 0x05, 0x00, 0x1b, 0x40] 0)) =
     [0x1b, 0x28, 0x47] \<and>
   [0x1b, 0x28, 0x47] \<noteq> [0x1b, 0x28, 0x47, 0x05, 0x00, 0x1b, 0x40 :: byte]"
  by (simp add: eval_defs ESCP_COMMANDS_def)

text \<open>
  C5, amended. The iterations of one call are chained (the first starts at cursor 0, each
  next one where the previous one stopped, each moves forward), and the spans that the
  cursor passes in them, concatenated, are the buffer. The span of an iteration is the slice
  of the buffer between its two cursors, clipped at the end of the buffer. For every
  iteration that stops inside the buffer it is the span of the specification: a single byte
  for a skipped byte or an unknown sequence; the prefix, the two length bytes and the
  parameters for a command with parameters; the prefix alone for a command whose parameter
  length is 0. For a command whose parameter region does not fit, it is the prefix and all
  remaining bytes of the buffer.
\<close>

theorem coverage:
  "chained 0 (iterations tbl data 0) \<and>
   concat (map (step_span data) (iterations tbl data 0)) = data \<and>
   (\<forall>(i, st, j) \<in> set (iterations tbl data 0).
      step_span data (i, st, j) = bytes_slice data i j \<and>
      (j \<le> length data \<longrightarrow> step_span data (i, st, j) = claimed_span data (i, st, j)))"
proof (intro conjI)
  show "chained 0 (iterations tbl data 0)"
    by (rule iterations_chained)
  have each: "\<forall>(i, st, j) \<in> set (iterations tbl data 0).
      step_span data (i, st, j) = bytes_slice data i j"
  proof clarify
    fix i st j assume "(i, st, j) \<in> set (iterations tbl data 0)"
    from iterations_entries [OF this] show "step_span data (i, st, j) = bytes_slice data i j"
      by (intro step_span_slice [of tbl]) simp_all
  qed
  then have eq: "map (step_span data) (iterations tbl data 0) =
             map (\<lambda>(k, st, j). bytes_slice data k j) (iterations tbl data 0)"
    by (intro map_cong) auto
  show "concat (map (step_span data) (iterations tbl data 0)) = data"
    unfolding eq using iterations_cover [of data tbl 0] by simp
  show "\<forall>(i, st, j) \<in> set (iterations tbl data 0).
      step_span data (i, st, j) = bytes_slice data i j \<and>
      (j \<le> length data \<longrightarrow> step_span data (i, st, j) = claimed_span data (i, st, j))"
  proof (clarify, intro conjI impI)
    fix i st j assume m: "(i, st, j) \<in> set (iterations tbl data 0)"
    with each show "step_span data (i, st, j) = bytes_slice data i j" by auto
    assume "j \<le> length data"
    with iterations_entries [OF m]
    show "step_span data (i, st, j) = claimed_span data (i, st, j)"
      by (intro step_span_claimed [of tbl]) simp_all
  qed
qed

theorem coverage_witness:
  "iterations ESCP_COMMANDS [0x00, 0x1b, 0x28, 0x47, 0x01, 0x00, 0xaa, 0x1b, 0xff] 0 =
     [(0, Skipped, 1),
      (1, Matched \<lparr>position = 1, command = ''1b2847'', description = ''Select graphics mode'',
                   parameters = ''aa''\<rparr> [0x1b, 0x28, 0x47] [0xaa], 7),
      (7, Unknown [0x1b, 0xff], 8),
      (8, Skipped, 9)] \<and>
   map (step_span [0x00, 0x1b, 0x28, 0x47, 0x01, 0x00, 0xaa, 0x1b, 0xff])
     (iterations ESCP_COMMANDS [0x00, 0x1b, 0x28, 0x47, 0x01, 0x00, 0xaa, 0x1b, 0xff] 0) =
     [[0x00], [0x1b, 0x28, 0x47, 0x01, 0x00, 0xaa], [0x1b], [0xff]] \<and>
   map (claimed_span [0x00, 0x1b, 0x28, 0x47, 0x01, 0x00, 0xaa, 0x1b, 0xff])
     (iterations ESCP_COMMANDS [0x00, 0x1b, 0x28, 0x47, 0x01, 0x00, 0xaa, 0x1b, 0xff] 0) =
     [[0x00], [0x1b, 0x28, 0x47, 0x01, 0x00, 0xaa], [0x1b], [0xff]] \<and>
   concat (map (step_span [0x00, 0x1b, 0x28, 0x47, 0x01, 0x00, 0xaa, 0x1b, 0xff])
     (iterations ESCP_COMMANDS [0x00, 0x1b, 0x28, 0x47, 0x01, 0x00, 0xaa, 0x1b, 0xff] 0)) =
     [0x00, 0x1b, 0x28, 0x47, 0x01, 0x00, 0xaa, 0x1b, 0xff] \<and>
   iterations ESCP_COMMANDS [0x1b, 0x28, 0x47, 0x05, 0x00, 0x1b, 0x40] 0 =
     [(0, Matched \<lparr>position = 0, command = ''1b2847'', description = ''Select graphics mode'',
                   parameters = ''''\<rparr> [0x1b, 0x28, 0x47] [], 10)] \<and>
   concat (map (step_span [0x1b, 0x28, 0x47, 0x05, 0x00, 0x1b, 0x40])
     (iterations ESCP_COMMANDS [0x1b, 0x28, 0x47, 0x05, 0x00, 0x1b, 0x40] 0)) =
     [0x1b, 0x28, 0x47, 0x05, 0x00, 0x1b, 0x40]"
proof -
  have its: "iterations ESCP_COMMANDS [0x00, 0x1b, 0x28, 0x47, 0x01, 0x00, 0xaa, 0x1b, 0xff] 0 =
     [(0, Skipped, 1),
      (1, Matched \<lparr>position = 1, command = ''1b2847'', description = ''Select graphics mode'',
                   parameters = ''aa''\<rparr> [0x1b, 0x28, 0x47] [0xaa], 7),
      (7, Unknown [0x1b, 0xff], 8),
      (8, Skipped, 9)]"
    by (simp add: eval_defs ESCP_COMMANDS_def)
  have its': "iterations ESCP_COMMANDS [0x1b, 0x28, 0x47, 0x05, 0x00, 0x1b, 0x40] 0 =
     [(0, Matched \<lparr>position = 0, command = ''1b2847'', description = ''Select graphics mode'',
                   parameters = ''''\<rparr> [0x1b, 0x28, 0x47] [], 10)]"
    by (simp add: eval_defs ESCP_COMMANDS_def)
  from coverage [of ESCP_COMMANDS "[0x00, 0x1b, 0x28, 0x47, 0x01, 0x00, 0xaa, 0x1b, 0xff]"]
    coverage [of ESCP_COMMANDS "[0x1b, 0x28, 0x47, 0x05, 0x00, 0x1b, 0x40]"]
  show ?thesis
    unfolding its its' by (simp add: bytes_slice_def)
qed

text \<open>
  C9. Feeding the packets of a capture to the parser in any order gives the same
  \<^verbatim>\<open>commands_found\<close> (the same keys with the same counts) and the same
  \<^verbatim>\<open>unknown_commands\<close>: for two lists of packets that are permutations of each other,
  both runs return a parser state, and the two states agree on these two fields.
\<close>

theorem statistics_order_independent:
  assumes "mset packets = mset packets'"
  shows "\<exists>s s'. parse_file tbl packets self = Inr s \<and> parse_file tbl packets' self = Inr s' \<and>
           commands_found s = commands_found s' \<and> unknown_commands s = unknown_commands s'"
proof -
  let ?keys = "\<lambda>(timestamp :: string, direction :: string, packet_data).
      concat (map counted_keys (steps tbl packet_data))"
  let ?unknowns = "\<lambda>(timestamp :: string, direction :: string, packet_data).
      concat (map recorded_unknowns (steps tbl packet_data))"
  from parse_file_statistics [of tbl packets self] obtain s where
    s: "parse_file tbl packets self = Inr s"
       "commands_found s =
          fold (\<lambda>k m. increment m k) (concat (map ?keys packets)) (commands_found self)"
       "unknown_commands s = unknown_commands self \<union> set (concat (map ?unknowns packets))"
    by blast
  from parse_file_statistics [of tbl packets' self] obtain s' where
    s': "parse_file tbl packets' self = Inr s'"
       "commands_found s' =
          fold (\<lambda>k m. increment m k) (concat (map ?keys packets')) (commands_found self)"
       "unknown_commands s' = unknown_commands self \<union> set (concat (map ?unknowns packets'))"
    by blast
  have "commands_found s = commands_found s'"
    unfolding s(2) s'(2)
    by (rule fold_increment_mset) (rule mset_concat_map_cong [OF assms])
  moreover have "set (concat (map ?unknowns packets)) = set (concat (map ?unknowns packets'))"
    by (rule mset_eq_setD) (rule mset_concat_map_cong [OF assms])
  then have "unknown_commands s = unknown_commands s'"
    unfolding s(3) s'(3) by simp
  ultimately show ?thesis using s(1) s'(1) by blast
qed

theorem statistics_order_independent_witness:
  "mset [(''t1'', ''OUT'', [0x1b, 0x40]), (''t2'', ''IN'', [0x1b, 0xff, 0x1b, 0x40])] =
   mset [(''t2'', ''IN'', [0x1b, 0xff, 0x1b, 0x40 :: byte]), (''t1'', ''OUT'', [0x1b, 0x40])] \<and>
   (\<exists>s s'.
      parse_file ESCP_COMMANDS
        [(''t1'', ''OUT'', [0x1b, 0x40]), (''t2'', ''IN'', [0x1b, 0xff, 0x1b, 0x40])] init = Inr s \<and>
      parse_file ESCP_COMMANDS
        [(''t2'', ''IN'', [0x1b, 0xff, 0x1b, 0x40]), (''t1'', ''OUT'', [0x1b, 0x40])] init = Inr s' \<and>
      commands_found s = commands_found s' \<and> unknown_commands s = unknown_commands s' \<and>
      commands_found s = [[0x1b, 0x40] \<mapsto> 2] \<and> unknown_commands s = {[0x1b, 0xff]} \<and>
      parsed_data s \<noteq> parsed_data s')"
proof -
  have perm: "mset [(''t1'', ''OUT'', [0x1b, 0x40]), (''t2'', ''IN'', [0x1b, 0xff, 0x1b, 0x40])] =
   mset [(''t2'', ''IN'', [0x1b, 0xff, 0x1b, 0x40 :: byte]), (''t1'', ''OUT'', [0x1b, 0x40])]"
    by (simp add: add.commute)
  have r1: "parse_file ESCP_COMMANDS
        [(''t1'', ''OUT'', [0x1b, 0x40]), (''t2'', ''IN'', [0x1b, 0xff, 0x1b, 0x40])] init =
      Inr \<lparr>commands_found = [[0x1b, 0x40] \<mapsto> 2],
           parsed_data =
             [(''t1'', ''OUT'', [\<lparr>position = 0, command = ''1b40'',
                 description = ''Initialize printer'', parameters = ''''\<rparr>]),
              (''t2'', ''IN'', [\<lparr>position = 2, command = ''1b40'',
                 description = ''Initialize printer'', parameters = ''''\<rparr>])],
           unknown_commands = {[0x1b, 0xff]}\<rparr>"
    by (simp add: eval_defs ESCP_COMMANDS_def init_def)
  have r2: "parse_file ESCP_COMMANDS
        [(''t2'', ''IN'', [0x1b, 0xff, 0x1b, 0x40]), (''t1'', ''OUT'', [0x1b, 0x40])] init =
      Inr \<lparr>commands_found = [[0x1b, 0x40] \<mapsto> 2],
           parsed_data =
             [(''t2'', ''IN'', [\<lparr>position = 2, command = ''1b40'',
                 description = ''Initialize printer'', parameters = ''''\<rparr>]),
              (''t1'', ''OUT'', [\<lparr>position = 0, command = ''1b40'',
                 description = ''Initialize printer'', parameters = ''''\<rparr>])],
           unknown_commands = {[0x1b, 0xff]}\<rparr>"
    by (simp add: eval_defs ESCP_COMMANDS_def init_def)
  from statistics_order_independent [OF perm, of ESCP_COMMANDS init] perm
  show ?thesis unfolding r1 r2 by simp
qed

end
